theory Spec2Isabelle
  imports Main
begin

section \<open>QuadGraph: the data model of index.js\<close>

text \<open>
  A connection is the object \<^verbatim>\<open>{num, side}\<close> that \<^verbatim>\<open>link\<close> stores in a slot of a node.
  JavaScript numbers are modelled as \<^typ>\<open>int\<close>; fractional numbers, strings and other
  values in the place of an index or a side are outside the model. The code's numbers are
  IEEE doubles: its sums are those of \<^typ>\<open>int\<close> as long as every operand and result is
  below \<open>2^53\<close> in magnitude, and round beyond. The statements about arithmetic below
  bound their operands (sides, turns and directions in \<open>0..3\<close>), so they stay in the exact
  range.
\<close>

record connection =
  num :: int
  side :: int

text \<open>
  A node is a JavaScript array. The code only reads and writes single elements of it and
  never its length, so a node is the map from element index to connection. \<open>None\<close> stands for
  both \<^verbatim>\<open>null\<close> and \<^verbatim>\<open>undefined\<close>: the code tells them apart nowhere (it only tests
  truthiness and uses \<^verbatim>\<open>?.\<close>). Reading an element that was never written gives
  \<^verbatim>\<open>undefined\<close>, writing any element stores it, as for a JavaScript array.

  Arrays are objects with identity: the graph's \<^verbatim>\<open>nodes\<close> array holds references, the
  value pool is keyed by reference, and two positions of \<^verbatim>\<open>nodes\<close> may hold the same array.
  So the arrays live in a store, from references to nodes, with \<open>fresh\<close> the next reference
  that \<^verbatim>\<open>[null, null, null, null]\<close> allocates.
\<close>

type_synonym ref = nat
type_synonym node = "int \<Rightarrow> connection option"

record 'v graph =
  heap :: "ref \<Rightarrow> node"
  fresh :: ref
  nodes :: "ref list"
  valuePool :: "ref option \<Rightarrow> 'v option"

text \<open>
  The key of the value pool is what \<^verbatim>\<open>this.nodes[index]\<close> evaluates to: a reference, or
  \<^verbatim>\<open>undefined\<close> (\<open>None\<close>). A pool entry is \<open>None\<close> when \<^verbatim>\<open>Map.get\<close> gives
  \<^verbatim>\<open>undefined\<close>.
\<close>

datatype error = TypeError

text \<open>The values that \<^verbatim>\<open>link\<close> and \<^verbatim>\<open>unlink\<close> can return.\<close>

datatype jsval = JBool bool | JUndefined

fun truthy :: "jsval \<Rightarrow> bool" where
  "truthy (JBool b) = b"
| "truthy JUndefined = False"

text \<open>The cursor object that \<^verbatim>\<open>build\<close> returns: its three data fields.\<close>

record cursor =
  index :: int
  node :: "ref option"
  turn :: int

section \<open>The operations\<close>

text \<open>\<^verbatim>\<open>new QuadGraph(nodes)\<close>, in a store \<open>h\<close> whose next free reference is \<open>f\<close>.\<close>

definition QuadGraph :: "(ref \<Rightarrow> node) \<Rightarrow> ref \<Rightarrow> ref list option \<Rightarrow> 'v graph" where
  "QuadGraph h f nodesArg =
     \<lparr>heap = h, fresh = f,
      nodes = (case nodesArg of None \<Rightarrow> [] | Some ns \<Rightarrow> ns),
      valuePool = (\<lambda>k. None)\<rparr>"

text \<open>\<^verbatim>\<open>get length\<close>.\<close>

definition length_graph :: "'v graph \<Rightarrow> int" where
  "length_graph g = int (length (nodes g))"

text \<open>\<^verbatim>\<open>this.nodes[i]\<close>: \<^verbatim>\<open>undefined\<close> outside the array.\<close>

definition nodes_at :: "'v graph \<Rightarrow> int \<Rightarrow> ref option" where
  "nodes_at g i =
     (if 0 \<le> i \<and> i < int (length (nodes g)) then Some (nodes g ! nat i) else None)"

text \<open>The array literal \<^verbatim>\<open>[null, null, null, null]\<close>: a new array, every element empty.\<close>

definition new_node :: "'v graph \<Rightarrow> ref \<times> 'v graph" where
  "new_node g = (fresh g, g\<lparr>heap := (heap g)(fresh g := (\<lambda>k. None)), fresh := Suc (fresh g)\<rparr>)"

text \<open>
  \<^verbatim>\<open>add(node = [null, null, null, null], value)\<close>: an absent argument is \<open>None\<close>; the default
  array is allocated only when the argument is absent.
\<close>

definition add :: "'v graph \<Rightarrow> ref option \<Rightarrow> 'v option \<Rightarrow> ref \<times> 'v graph" where
  "add g nodeArg val =
     (let (r, g1) = (case nodeArg of None \<Rightarrow> new_node g | Some r' \<Rightarrow> (r', g));
          g2 = g1\<lparr>nodes := nodes g1 @ [r]\<rparr>;
          g3 = (case val of None \<Rightarrow> g2
                | Some v \<Rightarrow> g2\<lparr>valuePool := (valuePool g2)(Some r := Some v)\<rparr>)
      in (r, g3))"

definition setValue :: "'v graph \<Rightarrow> int \<Rightarrow> 'v option \<Rightarrow> 'v graph" where
  "setValue g i val = g\<lparr>valuePool := (valuePool g)(nodes_at g i := val)\<rparr>"

text \<open>\<^verbatim>\<open>for(var i = 0; i < num; i ++) this.add();\<close>\<close>

function populate_loop :: "int \<Rightarrow> int \<Rightarrow> 'v graph \<Rightarrow> 'v graph" where
  "populate_loop n i g =
     (if i < n then populate_loop n (i + 1) (snd (add g None None)) else g)"
  by pat_completeness auto
termination
  by (relation "measure (\<lambda>(n, i, g). nat (n - i))") auto

declare populate_loop.simps [simp del]

definition populate :: "'v graph \<Rightarrow> int \<Rightarrow> 'v graph" where
  "populate g n = populate_loop n 0 g"

text \<open>
  \<^verbatim>\<open>link\<close>. Indexing \<^verbatim>\<open>undefined\<close> throws a TypeError. The \<^verbatim>\<open>||\<close> does not evaluate its
  second operand when the first slot is occupied. A stored connection is an object, so it
  is truthy. Both reads come before both writes, so an exception leaves the graph as it
  was. On success the function ends without a \<^verbatim>\<open>return\<close>: its value is \<^verbatim>\<open>undefined\<close>.
\<close>

definition link :: "'v graph \<Rightarrow> int \<Rightarrow> int \<Rightarrow> int \<Rightarrow> int \<Rightarrow> error + (jsval \<times> 'v graph)" where
  "link g firstIndex firstSide secondIndex secondSide =
     (case nodes_at g firstIndex of
        None \<Rightarrow> Inl TypeError
      | Some r1 \<Rightarrow>
          (case heap g r1 firstSide of
             Some prev \<Rightarrow> Inr (JBool False, g)
           | None \<Rightarrow>
               (case nodes_at g secondIndex of
                  None \<Rightarrow> Inl TypeError
                | Some r2 \<Rightarrow>
                    (case heap g r2 secondSide of
                       Some prev \<Rightarrow> Inr (JBool False, g)
                     | None \<Rightarrow>
                         (let h1 = (heap g)(r1 := (heap g r1)
                                     (firstSide \<mapsto> \<lparr>num = secondIndex, side = secondSide\<rparr>));
                              h2 = h1(r2 := (h1 r2)
                                     (secondSide \<mapsto> \<lparr>num = firstIndex, side = firstSide\<rparr>))
                          in Inr (JUndefined, g\<lparr>heap := h2\<rparr>))))))"

text \<open>
  \<^verbatim>\<open>unlink\<close>. \<^verbatim>\<open>slot?.num != secondIndex\<close> is true for an empty slot (\<^verbatim>\<open>undefined\<close> is
  not equal to a number) and otherwise compares the stored \<^verbatim>\<open>num\<close> only.
\<close>

definition unlink :: "'v graph \<Rightarrow> int \<Rightarrow> int \<Rightarrow> int \<Rightarrow> int \<Rightarrow> error + (jsval \<times> 'v graph)" where
  "unlink g firstIndex firstSide secondIndex secondSide =
     (case nodes_at g firstIndex of
        None \<Rightarrow> Inl TypeError
      | Some r1 \<Rightarrow>
          if (case heap g r1 firstSide of None \<Rightarrow> True | Some c \<Rightarrow> num c \<noteq> secondIndex)
          then Inr (JBool False, g)
          else
            (case nodes_at g secondIndex of
               None \<Rightarrow> Inl TypeError
             | Some r2 \<Rightarrow>
                 if (case heap g r2 secondSide of None \<Rightarrow> True | Some c \<Rightarrow> num c \<noteq> firstIndex)
                 then Inr (JBool False, g)
                 else
                   (let h1 = (heap g)(r1 := (heap g r1)(firstSide := None));
                        h2 = h1(r2 := (h1 r2)(secondSide := None))
                    in Inr (JUndefined, g\<lparr>heap := h2\<rparr>))))"

text \<open>
  JavaScript's \<^verbatim>\<open>%\<close> on integers takes the sign of the dividend. The code divides by 4
  only.
\<close>

definition js_rem :: "int \<Rightarrow> int \<Rightarrow> int" where
  "js_rem a b = sgn a * (\<bar>a\<bar> mod \<bar>b\<bar>)"

text \<open>\<^verbatim>\<open>build(index, turn = 0)\<close>: the data fields of the returned object.\<close>

definition build :: "'v graph \<Rightarrow> int \<Rightarrow> int \<Rightarrow> cursor" where
  "build g i t = \<lparr>index = i, node = nodes_at g i, turn = t\<rparr>"

text \<open>
  \<^verbatim>\<open>next(i)\<close> of the cursor \<open>res\<close>, as a method on the graph's state: it returns its result
  and the graph after the call. \<^verbatim>\<open>res.node[...]\<close> throws when the cursor was built on an
  index that was not populated. With an empty slot \<^verbatim>\<open>newIndex\<close> is \<^verbatim>\<open>undefined\<close>, and
  \<^verbatim>\<open>nodes[undefined]\<close> is \<^verbatim>\<open>undefined\<close>, so the result is \<^verbatim>\<open>null\<close> (\<open>None\<close>).
  The two sums are the code's as long as the stored side, the turn and \<open>i\<close> are below
  \<open>2^53 - 6\<close> in magnitude; beyond that the code's doubles round and this definition does
  not follow them.
\<close>

definition next_cursor :: "'v graph \<Rightarrow> cursor \<Rightarrow> int \<Rightarrow> error + (cursor option \<times> 'v graph)" where
  "next_cursor g res i =
     (case node res of
        None \<Rightarrow> Inl TypeError
      | Some r \<Rightarrow>
          (case heap g r (js_rem (i + turn res) 4) of
             None \<Rightarrow> Inr (None, g)
           | Some c \<Rightarrow>
               (let newIndex = num c;
                    newTurn = js_rem (side c + 2 - i + 4) 4
                in (case nodes_at g newIndex of
                      Some r' \<Rightarrow> Inr (Some (build g newIndex newTurn), g)
                    | None \<Rightarrow> Inr (None, g)))))"

text \<open>The accessors \<^verbatim>\<open>value\<close> (get and set), \<^verbatim>\<open>right\<close>, \<^verbatim>\<open>down\<close>, \<^verbatim>\<open>left\<close>, \<^verbatim>\<open>up\<close>.\<close>

definition value_get :: "'v graph \<Rightarrow> cursor \<Rightarrow> 'v option" where
  "value_get g res = valuePool g (node res)"

definition value_set :: "'v graph \<Rightarrow> cursor \<Rightarrow> 'v option \<Rightarrow> 'v graph" where
  "value_set g res val = g\<lparr>valuePool := (valuePool g)(node res := val)\<rparr>"

definition right :: "'v graph \<Rightarrow> cursor \<Rightarrow> error + (cursor option \<times> 'v graph)" where
  "right g res = next_cursor g res 0"

definition down :: "'v graph \<Rightarrow> cursor \<Rightarrow> error + (cursor option \<times> 'v graph)" where
  "down g res = next_cursor g res 1"

definition left :: "'v graph \<Rightarrow> cursor \<Rightarrow> error + (cursor option \<times> 'v graph)" where
  "left g res = next_cursor g res 2"

definition up :: "'v graph \<Rightarrow> cursor \<Rightarrow> error + (cursor option \<times> 'v graph)" where
  "up g res = next_cursor g res 3"

text \<open>
  A call of \<^verbatim>\<open>link\<close> as a statement: the returned value is dropped, an exception
  propagates.
\<close>

definition link_stmt :: "'v graph \<Rightarrow> int \<Rightarrow> int \<Rightarrow> int \<Rightarrow> int \<Rightarrow> error + 'v graph" where
  "link_stmt g a sa b sb = (case link g a sa b sb of Inl e \<Rightarrow> Inl e | Inr (v, g') \<Rightarrow> Inr g')"

text \<open>The body of the inner loop of \<^verbatim>\<open>grid\<close>, for one pair \<open>(i, j)\<close>.\<close>

definition grid_body :: "int \<Rightarrow> int \<Rightarrow> int \<Rightarrow> 'v graph \<Rightarrow> error + 'v graph" where
  "grid_body width i j g =
     (let idx = i + j * width
      in (case (if i > 0 then link_stmt g idx 3 (idx - 1) 1 else Inr g) of
            Inl e \<Rightarrow> Inl e
          | Inr g1 \<Rightarrow> (if j > 0 then link_stmt g1 idx 2 (idx - width) 0 else Inr g1)))"

text \<open>\<^verbatim>\<open>for(var j = 0; j < height; j ++)\<close>, from the current \<open>j\<close>.\<close>

function grid_inner :: "int \<Rightarrow> int \<Rightarrow> int \<Rightarrow> int \<Rightarrow> 'v graph \<Rightarrow> error + 'v graph" where
  "grid_inner width height i j g =
     (if j < height
      then (case grid_body width i j g of
              Inl e \<Rightarrow> Inl e
            | Inr g' \<Rightarrow> grid_inner width height i (j + 1) g')
      else Inr g)"
  by pat_completeness auto
termination
  by (relation "measure (\<lambda>(width, height, i, j, g). nat (height - j))") auto

declare grid_inner.simps [simp del]

text \<open>\<^verbatim>\<open>for(var i = 0; i < width; i ++)\<close>, from the current \<open>i\<close>.\<close>

function grid_outer :: "int \<Rightarrow> int \<Rightarrow> int \<Rightarrow> 'v graph \<Rightarrow> error + 'v graph" where
  "grid_outer width height i g =
     (if i < width
      then (case grid_inner width height i 0 g of
              Inl e \<Rightarrow> Inl e
            | Inr g' \<Rightarrow> grid_outer width height (i + 1) g')
      else Inr g)"
  by pat_completeness auto
termination
  by (relation "measure (\<lambda>(width, height, i, g). nat (width - i))") auto

declare grid_outer.simps [simp del]

text \<open>\<^verbatim>\<open>static grid(width, height)\<close>, in a store \<open>h\<close> whose next free reference is \<open>f\<close>.\<close>

definition grid :: "(ref \<Rightarrow> node) \<Rightarrow> ref \<Rightarrow> int \<Rightarrow> int \<Rightarrow> error + 'v graph" where
  "grid h f width height =
     grid_outer width height 0 (populate (QuadGraph h f None) (width * height))"

section \<open>Observations used in the statements\<close>

text \<open>An index is populated when \<^verbatim>\<open>nodes[i]\<close> is an array.\<close>

definition valid_index :: "'v graph \<Rightarrow> int \<Rightarrow> bool" where
  "valid_index g i = (0 \<le> i \<and> i < int (length (nodes g)))"

text \<open>
  \<open>Node[i].side[s]\<close>: the slot \<open>s\<close> of the node at index \<open>i\<close>; empty is \<open>None\<close>.
\<close>

definition slot :: "'v graph \<Rightarrow> int \<Rightarrow> int \<Rightarrow> connection option" where
  "slot g i s = (case nodes_at g i of None \<Rightarrow> None | Some r \<Rightarrow> heap g r s)"

section \<open>The demo script\<close>

text \<open>A sequence of \<^verbatim>\<open>graph.link(a, sa, b, sb);\<close> statements.\<close>

fun link_all :: "'v graph \<Rightarrow> (int \<times> int \<times> int \<times> int) list \<Rightarrow> error + 'v graph" where
  "link_all g [] = Inr g"
| "link_all g ((a, sa, b, sb) # ls) =
     (case link_stmt g a sa b sb of Inl e \<Rightarrow> Inl e | Inr g' \<Rightarrow> link_all g' ls)"

text \<open>
  \<^verbatim>\<open>new QuadGraph([[null, null, null, null], ...])\<close> with four array literals, in the empty
  store: the four arrays get the references 0 to 3.
\<close>

definition demo_start :: "string graph" where
  "demo_start = QuadGraph (\<lambda>r k. None) 4 (Some [0, 1, 2, 3])"

text \<open>The eight \<^verbatim>\<open>link\<close> calls and the four \<^verbatim>\<open>setValue\<close> calls of the script, in order.\<close>

definition demo :: "error + string graph" where
  "demo =
     (case link_all demo_start
             [(0, 0, 1, 2), (1, 0, 2, 2), (0, 1, 2, 3), (2, 1, 0, 3),
              (2, 0, 3, 2), (3, 0, 2, 2), (1, 1, 3, 3), (3, 1, 1, 3)] of
        Inl e \<Rightarrow> Inl e
      | Inr g \<Rightarrow>
          Inr (setValue (setValue (setValue (setValue g 0 (Some ''node 0''))
                 1 (Some ''node 1'')) 2 (Some ''node 2'')) 3 (Some ''node 3'')))"

text \<open>Two links between the nodes 0 and 1, on different sides.\<close>

definition double_link :: "error + string graph" where
  "double_link = link_all demo_start [(0, 0, 1, 2), (0, 1, 1, 3)]"

section \<open>The wiring of a grid, for the proof\<close>

text \<open>
  What the slot \<open>s\<close> of the node in column \<open>i\<close> and row \<open>j\<close> holds once the links of the
  pairs in \<open>D1\<close> (the \<^verbatim>\<open>i > 0\<close> link) and \<open>D2\<close> (the \<^verbatim>\<open>j > 0\<close> link) are made.
\<close>

definition grid_slot ::
  "int \<Rightarrow> int \<Rightarrow> (int \<Rightarrow> int \<Rightarrow> bool) \<Rightarrow> (int \<Rightarrow> int \<Rightarrow> bool) \<Rightarrow> int \<Rightarrow> int \<Rightarrow> int
     \<Rightarrow> connection option" where
  "grid_slot w h D1 D2 i j s =
     (if s = 3 then (if 0 < i \<and> D1 i j then Some \<lparr>num = i + j * w - 1, side = 1\<rparr> else None)
      else if s = 1 then
        (if i + 1 < w \<and> D1 (i + 1) j then Some \<lparr>num = i + j * w + 1, side = 3\<rparr> else None)
      else if s = 2 then (if 0 < j \<and> D2 i j then Some \<lparr>num = i + j * w - w, side = 0\<rparr> else None)
      else if s = 0 then
        (if j + 1 < h \<and> D2 i (j + 1) then Some \<lparr>num = i + j * w + w, side = 2\<rparr> else None)
      else None)"

definition wired ::
  "int \<Rightarrow> int \<Rightarrow> (int \<Rightarrow> int \<Rightarrow> bool) \<Rightarrow> (int \<Rightarrow> int \<Rightarrow> bool) \<Rightarrow> 'v graph \<Rightarrow> bool" where
  "wired w h D1 D2 g =
     (int (length (nodes g)) = w * h \<and> distinct (nodes g) \<and>
      (\<forall>i j s. 0 \<le> i \<and> i < w \<and> 0 \<le> j \<and> j < h \<longrightarrow>
         slot g (i + j * w) s = grid_slot w h D1 D2 i j s))"

text \<open>The pairs that the two loops have gone through when they reach \<open>(i0, j0)\<close>.\<close>

definition before :: "int \<Rightarrow> int \<Rightarrow> int \<Rightarrow> int \<Rightarrow> bool" where
  "before i0 j0 i j = (i < i0 \<or> (i = i0 \<and> j < j0))"

section \<open>Evaluation and basic facts\<close>

lemmas exec_defs = demo_def double_link_def demo_start_def QuadGraph_def link_stmt_def
  link_def unlink_def nodes_at_def setValue_def next_cursor_def build_def js_rem_def Let_def
  slot_def valid_index_def value_get_def

lemma js_rem_nonneg: "0 \<le> a \<Longrightarrow> js_rem a 4 = a mod 4"
  by (cases "a = 0") (simp_all add: js_rem_def)

lemma valid_nodes_at: "valid_index g i \<Longrightarrow> \<exists>r. nodes_at g i = Some r"
  by (simp add: valid_index_def nodes_at_def)

lemma nodes_at_valid: "nodes_at g i = Some r \<Longrightarrow> valid_index g i"
  by (simp add: valid_index_def nodes_at_def split: if_splits)

lemma slot_valid: "slot g i s = Some c \<Longrightarrow> valid_index g i"
  by (auto simp: slot_def valid_index_def nodes_at_def split: option.splits if_splits)

lemma nodes_at_inj:
  assumes "distinct (nodes g)" "nodes_at g a = Some r" "nodes_at g b = Some r"
  shows "a = b"
  using assms by (auto simp: nodes_at_def nth_eq_iff_index_eq split: if_splits)

lemma link_nodes: "link g a sa b sb = Inr (v, g') \<Longrightarrow> nodes g' = nodes g"
  by (auto simp: link_def Let_def split: option.splits)

lemma unlink_nodes: "unlink g a sa b sb = Inr (v, g') \<Longrightarrow> nodes g' = nodes g"
  by (auto simp: unlink_def Let_def split: option.splits if_splits)

text \<open>
  \<^verbatim>\<open>populate\<close> appends new arrays: a node sequence that holds every array once, all of
  them allocated, still does so afterwards.
\<close>

lemma populate_loop_nodes:
  "nodes (populate_loop n i g) = nodes g @ [fresh g ..< fresh g + nat (n - i)]"
proof (induction n i g rule: populate_loop.induct)
  case (1 n i g)
  show ?case
  proof (cases "i < n")
    case True
    then have k: "nat (n - i) = Suc (nat (n - (i + 1)))" by simp
    show ?thesis
      using True 1
      by (subst populate_loop.simps) (simp add: add_def new_node_def k upt_conv_Cons)
  next
    case False
    then show ?thesis by (subst populate_loop.simps) simp
  qed
qed

lemma populate_loop_heap:
  "heap (populate_loop n i g) r =
     (if fresh g \<le> r \<and> r < fresh g + nat (n - i) then (\<lambda>k. None) else heap g r)"
proof (induction n i g arbitrary: r rule: populate_loop.induct)
  case (1 n i g)
  show ?case
  proof (cases "i < n")
    case True
    then have k: "nat (n - i) = Suc (nat (n - (i + 1)))" by simp
    show ?thesis
      using True 1
      by (subst populate_loop.simps) (auto simp add: add_def new_node_def k)
  next
    case False
    then show ?thesis by (subst populate_loop.simps) auto
  qed
qed

lemma populate_loop_pool: "valuePool (populate_loop n i g) = valuePool g"
proof (induction n i g rule: populate_loop.induct)
  case (1 n i g)
  show ?case
    using 1
    by (subst populate_loop.simps) (simp add: add_def new_node_def)
qed

lemma populate_loop_distinct:
  assumes "distinct (nodes g)" "\<forall>r\<in>set (nodes g). r < fresh g"
  shows "distinct (nodes (populate_loop n i g))"
  using assms by (auto simp: populate_loop_nodes)

lemma populate_distinct:
  assumes "distinct (nodes g)" "\<forall>r\<in>set (nodes g). r < fresh g"
  shows "distinct (nodes (populate g n))"
  using assms by (simp add: populate_def populate_loop_distinct)

section \<open>link and unlink\<close>

text \<open>
  What a successful \<^verbatim>\<open>link\<close> writes, slot by slot. The second write is the later one, so
  it wins when both endpoints are the same slot.
\<close>

lemma link_unfold:
  assumes "nodes_at g a = Some r1" "nodes_at g b = Some r2" "heap g r1 sa = None" "heap g r2 sb = None"
  shows "link g a sa b sb = Inr (JUndefined,
     g\<lparr>heap := ((heap g)(r1 := (heap g r1)(sa \<mapsto> \<lparr>num = b, side = sb\<rparr>)))
          (r2 := (((heap g)(r1 := (heap g r1)(sa \<mapsto> \<lparr>num = b, side = sb\<rparr>))) r2)
              (sb \<mapsto> \<lparr>num = a, side = sa\<rparr>))\<rparr>)"
  using assms by (simp add: link_def Let_def)

lemma link_stmt_slot:
  assumes "distinct (nodes g)" "valid_index g a" "valid_index g b"
    "slot g a sa = None" "slot g b sb = None"
  shows "\<exists>g'. link_stmt g a sa b sb = Inr g' \<and> nodes g' = nodes g \<and>
     (\<forall>x s. slot g' x s =
        (if x = b \<and> s = sb then Some \<lparr>num = a, side = sa\<rparr>
         else if x = a \<and> s = sa then Some \<lparr>num = b, side = sb\<rparr>
         else slot g x s))"
proof -
  obtain r1 where r1: "nodes_at g a = Some r1"
    using assms(2) by (simp add: valid_index_def nodes_at_def)
  obtain r2 where r2: "nodes_at g b = Some r2"
    using assms(3) by (simp add: valid_index_def nodes_at_def)
  have e1: "heap g r1 sa = None" using assms(4) r1 by (simp add: slot_def)
  have e2: "heap g r2 sb = None" using assms(5) r2 by (simp add: slot_def)
  define g' where "g' = g\<lparr>heap := ((heap g)(r1 := (heap g r1)(sa \<mapsto> \<lparr>num = b, side = sb\<rparr>)))
          (r2 := (((heap g)(r1 := (heap g r1)(sa \<mapsto> \<lparr>num = b, side = sb\<rparr>))) r2)
              (sb \<mapsto> \<lparr>num = a, side = sa\<rparr>))\<rparr>"
  have l: "link_stmt g a sa b sb = Inr g'"
    using link_unfold[OF r1 r2 e1 e2] by (simp add: link_stmt_def g'_def)
  have n: "nodes g' = nodes g" by (simp add: g'_def)
  have na: "nodes_at g' x = nodes_at g x" for x by (simp add: nodes_at_def n)
  have s: "slot g' x s =
        (if x = b \<and> s = sb then Some \<lparr>num = a, side = sa\<rparr>
         else if x = a \<and> s = sa then Some \<lparr>num = b, side = sb\<rparr>
         else slot g x s)" for x s
  proof (cases "nodes_at g x")
    case None
    then have "x \<noteq> a" "x \<noteq> b" using r1 r2 by auto
    then show ?thesis using None by (simp add: slot_def na)
  next
    case (Some r)
    have xa: "(r = r1) = (x = a)" using nodes_at_inj[OF assms(1) Some, of a] r1 Some by auto
    have xb: "(r = r2) = (x = b)" using nodes_at_inj[OF assms(1) Some, of b] r2 Some by auto
    have sg: "slot g x s = heap g r s" by (simp add: slot_def Some)
    have "slot g' x s = heap g' r s" by (simp add: slot_def na Some)
    also have "\<dots> = (if x = b \<and> s = sb then Some \<lparr>num = a, side = sa\<rparr>
         else if x = a \<and> s = sa then Some \<lparr>num = b, side = sb\<rparr>
         else slot g x s)"
      unfolding sg using xa xb by (auto simp: g'_def)
    finally show ?thesis .
  qed
  show ?thesis using l n s by blast
qed

text \<open>
  The node sequence must hold an array once for that: when the indices 0 and 1 hold the same
  array, the two writes of \<^verbatim>\<open>link(0, 0, 1, 0)\<close> go to one slot and the second one stays.
\<close>

lemma link_shared_array:
  "link (QuadGraph (\<lambda>r k. None) 1 (Some [0, 0]) :: unit graph) 0 0 1 0 =
     Inr (JUndefined, QuadGraph ((\<lambda>r k. None)(0 := [0 \<mapsto> \<lparr>num = 0, side = 0\<rparr>])) 1 (Some [0, 0]))"
  by (simp add: QuadGraph_def link_def nodes_at_def)

text \<open>
  Claim C4. For valid indices, when \<open>Node[a].side[sa]\<close> or \<open>Node[b].side[sb]\<close> is occupied,
  \<^verbatim>\<open>link(a, sa, b, sb)\<close> returns \<^verbatim>\<open>false\<close> and the graph after the call is the graph before
  it: no slot, of the endpoints or elsewhere, is changed.
\<close>

theorem link_occupied_no_mutation:
  assumes "valid_index g a" "valid_index g b" "slot g a sa \<noteq> None \<or> slot g b sb \<noteq> None"
  shows "link g a sa b sb = Inr (JBool False, g)"
  using assms by (auto simp: link_def slot_def valid_index_def nodes_at_def split: option.splits)

theorem link_occupied_no_mutation_witness:
  "\<exists>g. link demo_start 0 0 1 2 = Inr (JUndefined, g) \<and> valid_index g 0 \<and> valid_index g 3 \<and>
     slot g 0 0 \<noteq> None \<and> link g 0 0 3 1 = Inr (JBool False, g)"
proof -
  obtain g where g: "link demo_start 0 0 1 2 = Inr (JUndefined, g)"
    by (simp add: exec_defs)
  have v: "valid_index g 0" "valid_index g 3" and s: "slot g 0 0 \<noteq> None"
    using g by (auto simp: exec_defs)
  have "link g 0 0 3 1 = Inr (JBool False, g)"
    using link_occupied_no_mutation[OF v, of 0 1] s by simp
  then show ?thesis using g v s by blast
qed

text \<open>
  Claim C3. In a graph whose node sequence holds every array at one index only (a node's
  identity is its position; \<^verbatim>\<open>populate\<close> and \<^verbatim>\<open>grid\<close> build such graphs, and the demo
  script starts from one), \<^verbatim>\<open>link(a, sa, b, sb)\<close> on valid indices and two empty slots
  succeeds, and afterwards \<open>Node[a].side[sa]\<close> holds \<open>(b, sb)\<close> and
  \<open>Node[b].side[sb]\<close> holds \<open>(a, sa)\<close>: both reciprocal connections are written.
\<close>

theorem link_symmetry:
  assumes "distinct (nodes g)" "valid_index g a" "valid_index g b"
    "slot g a sa = None" "slot g b sb = None"
  shows "\<exists>g'. link g a sa b sb = Inr (JUndefined, g')
     \<and> slot g' a sa = Some \<lparr>num = b, side = sb\<rparr>
     \<and> slot g' b sb = Some \<lparr>num = a, side = sa\<rparr>"
proof -
  obtain g' where l: "link_stmt g a sa b sb = Inr g'"
    and s: "\<And>x s. slot g' x s =
        (if x = b \<and> s = sb then Some \<lparr>num = a, side = sa\<rparr>
         else if x = a \<and> s = sa then Some \<lparr>num = b, side = sb\<rparr>
         else slot g x s)"
    using link_stmt_slot[OF assms] by blast
  obtain r1 r2 where r: "nodes_at g a = Some r1" "nodes_at g b = Some r2"
    using valid_nodes_at assms(2,3) by blast
  have e: "heap g r1 sa = None" "heap g r2 sb = None"
    using assms(4,5) r by (simp_all add: slot_def)
  have "link g a sa b sb = Inr (JUndefined, g')"
    using l unfolding link_stmt_def link_unfold[OF r e] by simp
  moreover have "slot g' a sa = Some \<lparr>num = b, side = sb\<rparr>"
    unfolding s by auto
  moreover have "slot g' b sb = Some \<lparr>num = a, side = sa\<rparr>"
    unfolding s by simp
  ultimately show ?thesis by blast
qed

theorem link_symmetry_witness:
  "distinct (nodes demo_start) \<and> valid_index demo_start 0 \<and> valid_index demo_start 1 \<and>
   slot demo_start 0 0 = None \<and> slot demo_start 1 2 = None \<and>
   (\<exists>g'. link demo_start 0 0 1 2 = Inr (JUndefined, g')
     \<and> slot g' 0 0 = Some \<lparr>num = 1, side = 2\<rparr>
     \<and> slot g' 1 2 = Some \<lparr>num = 0, side = 0\<rparr>)"
proof -
  have h: "distinct (nodes demo_start)" "valid_index demo_start 0" "valid_index demo_start 1"
    "slot demo_start 0 0 = None" "slot demo_start 1 2 = None"
    by (simp_all add: exec_defs)
  show ?thesis using h link_symmetry[OF h] by simp
qed

text \<open>
  Claim C8, as stated, at a concrete input: \<^verbatim>\<open>link(0, 0, 1, 2)\<close> on four empty nodes is the
  successful case (both indices valid, both slots empty), and the value it returns is
  \<^verbatim>\<open>undefined\<close>, which is not a boolean and is not truthy.
\<close>

theorem link_returns_undefined_counterexample:
  "valid_index demo_start 0 \<and> valid_index demo_start 1 \<and>
   slot demo_start 0 0 = None \<and> slot demo_start 1 2 = None \<and>
   map_sum id fst (link demo_start 0 0 1 2) = Inr JUndefined \<and>
   map_sum id (truthy \<circ> fst) (link demo_start 0 0 1 2) = Inr False"
  by (simp add: exec_defs)

text \<open>
  Claim C8, amended. For valid indices, \<^verbatim>\<open>link\<close> returns \<^verbatim>\<open>false\<close> (graph unchanged) when
  a slot is occupied and \<^verbatim>\<open>undefined\<close> when both are empty; \<^verbatim>\<open>unlink\<close> returns
  \<^verbatim>\<open>false\<close> (graph unchanged) when a slot is empty or its connection's \<^verbatim>\<open>num\<close> is not the
  other endpoint's index, and \<^verbatim>\<open>undefined\<close> when both slots hold exactly the reciprocal
  connections.
\<close>

theorem link_unlink_return_values:
  assumes "valid_index g a" "valid_index g b"
  shows "(slot g a sa \<noteq> None \<or> slot g b sb \<noteq> None \<longrightarrow> link g a sa b sb = Inr (JBool False, g)) \<and>
     (slot g a sa = None \<and> slot g b sb = None \<longrightarrow> (\<exists>g'. link g a sa b sb = Inr (JUndefined, g'))) \<and>
     (map_option num (slot g a sa) \<noteq> Some b \<or> map_option num (slot g b sb) \<noteq> Some a \<longrightarrow>
        unlink g a sa b sb = Inr (JBool False, g)) \<and>
     (slot g a sa = Some \<lparr>num = b, side = sb\<rparr> \<and> slot g b sb = Some \<lparr>num = a, side = sa\<rparr> \<longrightarrow>
        (\<exists>g'. unlink g a sa b sb = Inr (JUndefined, g')))"
proof -
  obtain r1 r2 where r: "nodes_at g a = Some r1" "nodes_at g b = Some r2"
    using valid_nodes_at assms by blast
  have 1: "slot g a sa \<noteq> None \<or> slot g b sb \<noteq> None \<longrightarrow> link g a sa b sb = Inr (JBool False, g)"
    using r by (auto simp: link_def slot_def split: option.splits)
  have 2: "slot g a sa = None \<and> slot g b sb = None \<longrightarrow> (\<exists>g'. link g a sa b sb = Inr (JUndefined, g'))"
    using r by (auto simp: link_def slot_def Let_def)
  have 3: "map_option num (slot g a sa) \<noteq> Some b \<or> map_option num (slot g b sb) \<noteq> Some a \<longrightarrow>
        unlink g a sa b sb = Inr (JBool False, g)"
    using r by (auto simp: unlink_def slot_def Let_def split: option.splits)
  have 4: "slot g a sa = Some \<lparr>num = b, side = sb\<rparr> \<and> slot g b sb = Some \<lparr>num = a, side = sa\<rparr> \<longrightarrow>
        (\<exists>g'. unlink g a sa b sb = Inr (JUndefined, g'))"
    using r by (auto simp: unlink_def slot_def Let_def)
  show ?thesis using 1 2 3 4 by blast
qed

theorem link_unlink_return_values_witness:
  "valid_index demo_start 0 \<and> valid_index demo_start 1 \<and>
   (\<exists>g. link demo_start 0 0 1 2 = Inr (JUndefined, g) \<and>
      unlink demo_start 0 0 1 2 = Inr (JBool False, demo_start) \<and>
      valid_index g 0 \<and> valid_index g 1 \<and>
      link g 0 0 1 2 = Inr (JBool False, g) \<and>
      (\<exists>g'. unlink g 0 0 1 2 = Inr (JUndefined, g')))"
proof -
  have v: "valid_index demo_start 0" "valid_index demo_start 1"
    by (simp_all add: exec_defs)
  have e: "slot demo_start 0 0 = None" "slot demo_start 1 2 = None"
    by (simp_all add: exec_defs)
  obtain g where g: "link demo_start 0 0 1 2 = Inr (JUndefined, g)"
    using link_unlink_return_values[OF v, of 0 2] e by auto
  have u: "unlink demo_start 0 0 1 2 = Inr (JBool False, demo_start)"
    using link_unlink_return_values[OF v, of 0 2] e by simp
  have v': "valid_index g 0" "valid_index g 1"
    and s: "slot g 0 0 = Some \<lparr>num = 1, side = 2\<rparr>" "slot g 1 2 = Some \<lparr>num = 0, side = 0\<rparr>"
    using g by (auto simp: exec_defs)
  have l: "link g 0 0 1 2 = Inr (JBool False, g)"
    using link_unlink_return_values[OF v', of 0 2] s by simp
  have "\<exists>g'. unlink g 0 0 1 2 = Inr (JUndefined, g')"
    using link_unlink_return_values[OF v', of 0 2] s by simp
  then show ?thesis using v g u v' l by blast
qed

text \<open>
  What \<^verbatim>\<open>unlink\<close> decides on: the stored \<^verbatim>\<open>num\<close> of the two slots. When both are the other
  endpoint's index, both slots are cleared, whatever the stored sides are.
\<close>

lemma unlink_num_match:
  assumes "valid_index g a" "valid_index g b"
    "map_option num (slot g a sa) = Some b" "map_option num (slot g b sb) = Some a"
  shows "\<exists>g'. unlink g a sa b sb = Inr (JUndefined, g') \<and> nodes g' = nodes g \<and>
           slot g' a sa = None \<and> slot g' b sb = None"
proof -
  obtain r1 r2 where r: "nodes_at g a = Some r1" "nodes_at g b = Some r2"
    using valid_nodes_at assms(1,2) by blast
  obtain c1 c2 where c: "heap g r1 sa = Some c1" "num c1 = b" "heap g r2 sb = Some c2" "num c2 = a"
    using assms(3,4) r by (auto simp: slot_def)
  define g' where "g' = g\<lparr>heap := ((heap g)(r1 := (heap g r1)(sa := None)))
          (r2 := (((heap g)(r1 := (heap g r1)(sa := None))) r2)(sb := None))\<rparr>"
  have u: "unlink g a sa b sb = Inr (JUndefined, g')"
    using r c by (simp add: unlink_def Let_def g'_def)
  have n: "nodes g' = nodes g" by (simp add: g'_def)
  have na: "nodes_at g' x = nodes_at g x" for x by (simp add: nodes_at_def n)
  have "slot g' a sa = heap g' r1 sa" "slot g' b sb = heap g' r2 sb"
    by (simp_all add: slot_def na r)
  moreover have "heap g' r1 sa = None" "heap g' r2 sb = None"
    by (simp_all add: g'_def)
  ultimately have "slot g' a sa = None" "slot g' b sb = None" by simp_all
  then show ?thesis using u n by blast
qed

text \<open>
  Claim C1 at a concrete input. The nodes 0 and 1 are linked twice, \<open>(0,0)-(1,2)\<close> and
  \<open>(0,1)-(1,3)\<close>. \<open>Node[0].side[0]\<close> holds \<open>(1, 2)\<close>, not \<open>(1, 3)\<close>, and \<open>Node[1].side[3]\<close>
  holds \<open>(0, 1)\<close>, not \<open>(0, 0)\<close>: both endpoints of \<^verbatim>\<open>unlink(0, 0, 1, 3)\<close> mismatch in the
  side only. The call does not return \<^verbatim>\<open>false\<close>; it clears both slots and leaves
  \<open>Node[1].side[2]\<close> and \<open>Node[0].side[1]\<close> pointing at slots that are now empty.
\<close>

theorem unlink_ignores_side:
  "\<exists>g g'. double_link = Inr g \<and>
     slot g 0 0 = Some \<lparr>num = 1, side = 2\<rparr> \<and> slot g 1 3 = Some \<lparr>num = 0, side = 1\<rparr> \<and>
     unlink g 0 0 1 3 = Inr (JUndefined, g') \<and>
     slot g' 0 0 = None \<and> slot g' 1 3 = None \<and>
     slot g' 1 2 = Some \<lparr>num = 0, side = 0\<rparr> \<and> slot g' 0 1 = Some \<lparr>num = 1, side = 3\<rparr>"
  by (simp add: double_link_def exec_defs)

section \<open>Cursors\<close>

text \<open>
  Claim C2. For a cursor bound to a node, with turn in \<open>0..3\<close>, and a direction \<open>d\<close> in
  \<open>0..3\<close>, \<^verbatim>\<open>next(d)\<close> reads the slot \<open>(d + turn) mod 4\<close> of the cursor's node. An empty slot
  gives \<^verbatim>\<open>null\<close>. A connection \<open>(target, targetSide)\<close>, its side in \<open>0..3\<close>, gives the
  cursor with index \<open>target\<close> and turn \<open>(targetSide + 2 - d + 4) mod 4\<close> when \<open>target\<close> is a
  populated index, and \<^verbatim>\<open>null\<close> when it is not. The graph is returned as it was.
\<close>

theorem next_cursor_spec:
  assumes "node c = Some r" "0 \<le> turn c" "turn c < 4" "0 \<le> d" "d < 4"
    and "\<And>conn. heap g r ((d + turn c) mod 4) = Some conn \<Longrightarrow> 0 \<le> side conn \<and> side conn < 4"
  shows "next_cursor g c d =
     Inr (case heap g r ((d + turn c) mod 4) of
            None \<Rightarrow> None
          | Some conn \<Rightarrow>
              if valid_index g (num conn)
              then Some \<lparr>index = num conn, node = nodes_at g (num conn),
                         turn = (side conn + 2 - d + 4) mod 4\<rparr>
              else None, g)"
proof -
  have a: "js_rem (d + turn c) 4 = (d + turn c) mod 4"
    using assms(2,4) by (simp add: js_rem_nonneg)
  show ?thesis
  proof (cases "heap g r ((d + turn c) mod 4)")
    case None
    then show ?thesis using assms(1) a by (simp add: next_cursor_def)
  next
    case (Some conn)
    then have "0 \<le> side conn" using assms(6) by simp
    then have t: "js_rem (side conn + 2 - d + 4) 4 = (side conn + 2 - d + 4) mod 4"
      using assms(5) by (simp add: js_rem_nonneg)
    show ?thesis using assms(1) a Some t
      by (simp add: next_cursor_def Let_def build_def valid_index_def nodes_at_def)
  qed
qed

theorem next_cursor_spec_witness:
  "\<exists>g. demo = Inr g \<and> node (build g 0 0) = Some 0 \<and> turn (build g 0 0) = 0 \<and>
     heap g 0 ((0 + 0) mod 4) = Some \<lparr>num = 1, side = 2\<rparr> \<and> valid_index g 1 \<and>
     next_cursor g (build g 0 0) 0 = Inr (Some \<lparr>index = 1, node = Some 1, turn = 0\<rparr>, g)"
proof -
  obtain g where g: "demo = Inr g" by (simp add: exec_defs)
  have n: "node (build g 0 0) = Some 0" and t: "turn (build g 0 0) = 0"
    and h: "heap g 0 ((0 + 0) mod 4) = Some \<lparr>num = 1, side = 2\<rparr>"
    and v: "valid_index g 1" and r: "nodes_at g 1 = Some 1"
    using g by (auto simp: exec_defs)
  have s: "0 \<le> side conn \<and> side conn < 4"
    if "heap g 0 ((0 + turn (build g 0 0)) mod 4) = Some conn" for conn
    using that h t by auto
  have "next_cursor g (build g 0 0) 0 = Inr (Some \<lparr>index = 1, node = Some 1, turn = 0\<rparr>, g)"
    using next_cursor_spec[of "build g 0 0" 0 0 g, OF n _ _ _ _ s] h t v r by simp
  then show ?thesis using g n t h v by blast
qed

text \<open>
  Claim C5. When \<open>Node[a].side[sa]\<close> holds \<open>(b, sb)\<close> and \<open>Node[b].side[sb]\<close> holds
  \<open>(a, sa)\<close>, the cursor at \<open>a\<close> with turn \<open>t\<close> and the direction \<open>d\<close> with
  \<open>(d + t) mod 4 = sa\<close>: \<^verbatim>\<open>next(d)\<close> gives a cursor at \<open>b\<close>, and from there \<^verbatim>\<open>next\<close> of the
  reverse direction \<open>(d + 2) mod 4\<close> gives a cursor at \<open>a\<close> again, with the value of the
  original cursor.
\<close>

theorem traversal_inverse:
  assumes "slot g a sa = Some \<lparr>num = b, side = sb\<rparr>" "slot g b sb = Some \<lparr>num = a, side = sa\<rparr>"
    "0 \<le> sb" "sb < 4" "0 \<le> t" "t < 4" "0 \<le> d" "d < 4" "(d + t) mod 4 = sa"
  shows "\<exists>c1 c2. next_cursor g (build g a t) d = Inr (Some c1, g) \<and> index c1 = b \<and>
     next_cursor g c1 ((d + 2) mod 4) = Inr (Some c2, g) \<and> index c2 = a \<and>
     value_get g c2 = value_get g (build g a t)"
proof -
  obtain ra where ra: "nodes_at g a = Some ra" and ha: "heap g ra sa = Some \<lparr>num = b, side = sb\<rparr>"
    using assms(1) by (auto simp: slot_def split: option.splits)
  obtain rb where rb: "nodes_at g b = Some rb" and hb: "heap g rb sb = Some \<lparr>num = a, side = sa\<rparr>"
    using assms(2) by (auto simp: slot_def split: option.splits)
  define t1 where "t1 = (sb + 2 - d + 4) mod 4"
  define c1 where "c1 = build g b t1"
  have s1: "js_rem (d + t) 4 = sa" using assms(5,7,9) by (simp add: js_rem_nonneg)
  have "0 \<le> sb + 2 - d + 4" using assms(3,8) by simp
  then have t1: "js_rem (sb + 2 - d + 4) 4 = t1"
    unfolding t1_def by (rule js_rem_nonneg)
  have n1: "next_cursor g (build g a t) d = Inr (Some c1, g)"
    using t1 by (simp add: next_cursor_def build_def ra s1 ha rb c1_def)
  have "0 \<le> t1" "t1 < 4" by (simp_all add: t1_def)
  have "((d + 2) mod 4 + t1) mod 4 = sb"
    unfolding t1_def using assms(3,4,7,8) by presburger
  then have s2: "js_rem ((d + 2) mod 4 + t1) 4 = sb"
    using \<open>0 \<le> t1\<close> by (simp add: js_rem_nonneg)
  define c2 where "c2 = build g a (js_rem (sa + 2 - (d + 2) mod 4 + 4) 4)"
  have n2: "next_cursor g c1 ((d + 2) mod 4) = Inr (Some c2, g)"
    by (simp add: next_cursor_def c1_def build_def rb s2 hb ra c2_def)
  have "index c1 = b" "index c2 = a" "value_get g c2 = value_get g (build g a t)"
    by (simp_all add: c1_def c2_def build_def value_get_def)
  then show ?thesis using n1 n2 by blast
qed

theorem traversal_inverse_witness:
  "\<exists>g. demo = Inr g \<and> slot g 0 1 = Some \<lparr>num = 2, side = 3\<rparr> \<and>
     slot g 2 3 = Some \<lparr>num = 0, side = 1\<rparr> \<and> (0 + 1) mod 4 = (1::int) \<and>
     (\<exists>c1 c2. next_cursor g (build g 0 1) 0 = Inr (Some c1, g) \<and> index c1 = 2 \<and>
       next_cursor g c1 ((0 + 2) mod 4) = Inr (Some c2, g) \<and> index c2 = 0 \<and>
       value_get g c2 = value_get g (build g 0 1))"
proof -
  obtain g where g: "demo = Inr g" by (simp add: exec_defs)
  have s: "slot g 0 1 = Some \<lparr>num = 2, side = 3\<rparr>" "slot g 2 3 = Some \<lparr>num = 0, side = 1\<rparr>"
    using g by (auto simp: exec_defs)
  have m: "((0::int) + 1) mod 4 = 1" by simp
  show ?thesis
    using g s m traversal_inverse[OF s, of 1 0] by auto
qed

text \<open>
  Claim C10. \<^verbatim>\<open>next(d)\<close> and the accessors \<^verbatim>\<open>right\<close>, \<^verbatim>\<open>down\<close>, \<^verbatim>\<open>left\<close>, \<^verbatim>\<open>up\<close>
  return the graph they were called on: node sequence, store of slots and value pool are
  the same. The only other outcome is the TypeError of a cursor bound to no node, which is
  thrown before anything is written.
\<close>

theorem next_cursor_frame:
  "((node c = None \<and> next_cursor g c d = Inl TypeError) \<or> (\<exists>res. next_cursor g c d = Inr (res, g)))
   \<and> ((node c = None \<and> right g c = Inl TypeError) \<or> (\<exists>res. right g c = Inr (res, g)))
   \<and> ((node c = None \<and> down g c = Inl TypeError) \<or> (\<exists>res. down g c = Inr (res, g)))
   \<and> ((node c = None \<and> left g c = Inl TypeError) \<or> (\<exists>res. left g c = Inr (res, g)))
   \<and> ((node c = None \<and> up g c = Inl TypeError) \<or> (\<exists>res. up g c = Inr (res, g)))"
proof -
  have "(node c = None \<and> next_cursor g c i = Inl TypeError) \<or> (\<exists>res. next_cursor g c i = Inr (res, g))"
    for i
    by (simp add: next_cursor_def Let_def split: option.splits)
  then show ?thesis by (simp add: right_def down_def left_def up_def)
qed

theorem next_cursor_frame_witness:
  "\<exists>g. demo = Inr g \<and>
     next_cursor g (build g 0 0) 1 = Inr (Some \<lparr>index = 2, node = Some 2, turn = 0\<rparr>, g) \<and>
     (\<exists>res. next_cursor g (build g 0 0) 1 = Inr (res, g)) \<and>
     (\<exists>res. down g (build g 0 0) = Inr (res, g))"
proof -
  obtain g where g: "demo = Inr g" by (simp add: exec_defs)
  have n: "node (build g 0 0) \<noteq> None" using g by (auto simp: exec_defs)
  have e: "next_cursor g (build g 0 0) 1 = Inr (Some \<lparr>index = 2, node = Some 2, turn = 0\<rparr>, g)"
    using g by (auto simp: exec_defs)
  show ?thesis
    using g n e next_cursor_frame[of "build g 0 0" g 1] by auto
qed

text \<open>
  Claim C7, as stated, at a concrete input: index 7 is outside a graph of four nodes, yet
  \<^verbatim>\<open>setValue(7, "x")\<close> records the value (under the key \<^verbatim>\<open>undefined\<close>) and \<^verbatim>\<open>build(7)\<close>
  returns a cursor whose \<^verbatim>\<open>value\<close> reads it back.
\<close>

theorem out_of_range_counterexample:
  "\<not> valid_index demo_start 7 \<and>
   valuePool (setValue demo_start 7 (Some ''x'')) None = Some ''x'' \<and>
   build (setValue demo_start 7 (Some ''x'')) 7 0 = \<lparr>index = 7, node = None, turn = 0\<rparr> \<and>
   value_get (setValue demo_start 7 (Some ''x'')) (build (setValue demo_start 7 (Some ''x'')) 7 0)
     = Some ''x''"
  by (simp add: exec_defs)

text \<open>
  Claim C7, amended. For an index outside the node sequence, \<^verbatim>\<open>setValue\<close> changes the
  value pool at the key \<^verbatim>\<open>undefined\<close> only and nothing else of the graph; \<^verbatim>\<open>build\<close> returns
  a cursor bound to no node, whose \<^verbatim>\<open>value\<close> is the entry under \<^verbatim>\<open>undefined\<close> and whose
  \<^verbatim>\<open>next\<close> throws a TypeError.
\<close>

theorem out_of_range_silent:
  assumes "\<not> valid_index g i"
  shows "setValue g i v = g\<lparr>valuePool := (valuePool g)(None := v)\<rparr> \<and>
     build g i t = \<lparr>index = i, node = None, turn = t\<rparr> \<and>
     value_get (setValue g i v) (build (setValue g i v) i t) = v \<and>
     next_cursor g (build g i t) d = Inl TypeError"
  using assms
  by (auto simp: setValue_def build_def nodes_at_def valid_index_def value_get_def next_cursor_def)

theorem out_of_range_silent_witness:
  "\<not> valid_index demo_start (- 1) \<and>
   valuePool (setValue demo_start (- 1) (Some ''x'')) None = Some ''x'' \<and>
   nodes (setValue demo_start (- 1) (Some ''x'')) = nodes demo_start \<and>
   node (build demo_start (- 1) 0) = None \<and>
   next_cursor demo_start (build demo_start (- 1) 0) 0 = Inl TypeError"
proof -
  have h: "\<not> valid_index demo_start (- 1)" by (simp add: valid_index_def)
  show ?thesis
    using h out_of_range_silent[OF h, of "Some ''x''" 0 0] by (simp add: exec_defs)
qed

section \<open>The demo graph\<close>

text \<open>
  Claim C6 on the script as written. The cursor built at index 0 has the value
  \<open>node 0\<close>. The sixth call \<^verbatim>\<open>link(3, 0, 2, 2)\<close> returns \<^verbatim>\<open>false\<close>, since the second call
  \<^verbatim>\<open>link(1, 0, 2, 2)\<close> has taken \<open>Node[2].side[2]\<close>; so \<open>Node[3].side[0]\<close> and
  \<open>Node[0].side[2]\<close> stay empty, and \<^verbatim>\<open>next(2)\<close> from the first cursor is \<^verbatim>\<open>null\<close>.
\<close>

theorem demo_left_of_node_0_is_null:
  "\<exists>g5 g.
     link_all demo_start [(0, 0, 1, 2), (1, 0, 2, 2), (0, 1, 2, 3), (2, 1, 0, 3), (2, 0, 3, 2)]
       = Inr g5 \<and>
     slot g5 2 2 = Some \<lparr>num = 1, side = 0\<rparr> \<and> link g5 3 0 2 2 = Inr (JBool False, g5) \<and>
     demo = Inr g \<and> value_get g (build g 0 0) = Some ''node 0'' \<and>
     slot g 0 2 = None \<and> slot g 3 0 = None \<and>
     next_cursor g (build g 0 0) 2 = Inr (None, g)"
  by (simp add: exec_defs)

section \<open>grid\<close>

subsection \<open>Index arithmetic\<close>

lemma idx_inj:
  fixes i j i' j' w :: int
  assumes "0 \<le> i" "i < w" "0 \<le> i'" "i' < w" "i + j * w = i' + j' * w"
  shows "i = i' \<and> j = j'"
proof -
  have "(i + j * w) mod w = i" "(i' + j' * w) mod w = i'"
    using assms(1-4) by simp_all
  then have "i = i'" using assms(5) by metis
  then have "j * w = j' * w" using assms(5) by simp
  then have "j = j'" using assms by simp
  with \<open>i = i'\<close> show ?thesis by simp
qed

lemma idx_eq_iff:
  fixes i j i' j' w :: int
  assumes "0 \<le> i" "i < w" "0 \<le> i'" "i' < w"
  shows "(i + j * w = i' + j' * w) = (i = i' \<and> j = j')"
  using idx_inj[OF assms] by auto

lemma idx_range:
  fixes i j w h :: int
  assumes "0 \<le> i" "i < w" "0 \<le> j" "j < h"
  shows "0 \<le> i + j * w \<and> i + j * w < w * h"
proof -
  have "j * w \<le> (h - 1) * w" using assms by (intro mult_right_mono) auto
  then have "i + j * w < w + (h - 1) * w" using assms by linarith
  also have "\<dots> = w * h" by (simp add: algebra_simps)
  finally have "i + j * w < w * h" .
  moreover have "0 \<le> j * w" using assms by simp
  ultimately show ?thesis using assms by simp
qed

subsection \<open>One link of the loop body\<close>

lemma grid_slot_cong:
  assumes "0 \<le> i" "i < w" "0 \<le> j" "j < h"
    "\<And>i j. 0 < i \<Longrightarrow> i < w \<Longrightarrow> 0 \<le> j \<Longrightarrow> j < h \<Longrightarrow> D1 i j = E1 i j"
    "\<And>i j. 0 \<le> i \<Longrightarrow> i < w \<Longrightarrow> 0 < j \<Longrightarrow> j < h \<Longrightarrow> D2 i j = E2 i j"
  shows "grid_slot w h D1 D2 i j s = grid_slot w h E1 E2 i j s"
proof -
  have a: "0 < i \<Longrightarrow> D1 i j = E1 i j" using assms(1-4) assms(5) by simp
  have b: "i + 1 < w \<Longrightarrow> D1 (i + 1) j = E1 (i + 1) j"
    using assms(1-4) assms(5)[of "i + 1" j] by simp
  have c: "0 < j \<Longrightarrow> D2 i j = E2 i j" using assms(1-4) assms(6) by simp
  have d: "j + 1 < h \<Longrightarrow> D2 i (j + 1) = E2 i (j + 1)"
    using assms(1-4) assms(6)[of i "j + 1"] by simp
  show ?thesis
    unfolding grid_slot_def using a b c d by auto
qed

lemma wired_cong:
  assumes "wired w h D1 D2 g"
    "\<And>i j. 0 < i \<Longrightarrow> i < w \<Longrightarrow> 0 \<le> j \<Longrightarrow> j < h \<Longrightarrow> D1 i j = E1 i j"
    "\<And>i j. 0 \<le> i \<Longrightarrow> i < w \<Longrightarrow> 0 < j \<Longrightarrow> j < h \<Longrightarrow> D2 i j = E2 i j"
  shows "wired w h E1 E2 g"
  unfolding wired_def
proof (intro conjI allI impI)
  show "int (length (nodes g)) = w * h" "distinct (nodes g)"
    using assms(1) by (simp_all add: wired_def)
next
  fix i j s :: int
  assume r: "0 \<le> i \<and> i < w \<and> 0 \<le> j \<and> j < h"
  have "slot g (i + j * w) s = grid_slot w h D1 D2 i j s"
    using assms(1) r by (simp add: wired_def)
  also have "\<dots> = grid_slot w h E1 E2 i j s"
    using r assms(2,3) by (intro grid_slot_cong) auto
  finally show "slot g (i + j * w) s = grid_slot w h E1 E2 i j s" .
qed

lemma wired_valid:
  assumes "wired w h D1 D2 g" "0 \<le> i" "i < w" "0 \<le> j" "j < h"
  shows "valid_index g (i + j * w)"
  using assms(1) idx_range[OF assms(2-5)] by (simp add: wired_def valid_index_def)

lemma wired_slot:
  assumes "wired w h D1 D2 g" "0 \<le> i" "i < w" "0 \<le> j" "j < h"
  shows "slot g (i + j * w) s = grid_slot w h D1 D2 i j s"
  using assms by (simp add: wired_def)

lemma step_h:
  assumes wd: "wired w h D1 D2 g"
    and r: "0 < i0" "i0 < w" "0 \<le> j0" "j0 < h"
    and nd: "\<not> D1 i0 j0"
  shows "\<exists>g'. link_stmt g (i0 + j0 * w) 3 (i0 + j0 * w - 1) 1 = Inr g' \<and>
           wired w h (\<lambda>i j. D1 i j \<or> (i = i0 \<and> j = j0)) D2 g'"
proof -
  define a where "a = i0 + j0 * w"
  define b where "b = (i0 - 1) + j0 * w"
  have ba: "a - 1 = b" by (simp add: a_def b_def)
  have va: "valid_index g a" unfolding a_def using wired_valid[OF wd] r by simp
  have vb: "valid_index g b" unfolding b_def using wired_valid[OF wd, of "i0 - 1" j0] r by simp
  have ea: "slot g a 3 = None"
    unfolding a_def using wired_slot[OF wd, of i0 j0 3] r nd by (simp add: grid_slot_def)
  have eb: "slot g b 1 = None"
    unfolding b_def using wired_slot[OF wd, of "i0 - 1" j0 1] r nd by (simp add: grid_slot_def)
  have dist: "distinct (nodes g)" using wd by (simp add: wired_def)
  obtain g' where l: "link_stmt g a 3 b 1 = Inr g'" and n: "nodes g' = nodes g"
    and s: "\<And>x s. slot g' x s =
        (if x = b \<and> s = 1 then Some \<lparr>num = a, side = 3\<rparr>
         else if x = a \<and> s = 3 then Some \<lparr>num = b, side = 1\<rparr>
         else slot g x s)"
    using link_stmt_slot[OF dist va vb ea eb] by blast
  have "wired w h (\<lambda>i j. D1 i j \<or> (i = i0 \<and> j = j0)) D2 g'"
    unfolding wired_def
  proof (intro conjI allI impI)
    show "int (length (nodes g')) = w * h" "distinct (nodes g')"
      using wd n by (simp_all add: wired_def)
  next
    fix i j s :: int
    assume ij: "0 \<le> i \<and> i < w \<and> 0 \<le> j \<and> j < h"
    have da: "(i + j * w = a) = (i = i0 \<and> j = j0)"
      unfolding a_def using ij r by (intro idx_eq_iff) auto
    have db: "(i + j * w = b) = (i = i0 - 1 \<and> j = j0)"
      unfolding b_def using ij r by (intro idx_eq_iff) auto
    have old: "slot g (i + j * w) s = grid_slot w h D1 D2 i j s"
      using wired_slot[OF wd] ij by simp
    have "slot g' (i + j * w) s =
        (if (i = i0 - 1 \<and> j = j0) \<and> s = 1 then Some \<lparr>num = a, side = 3\<rparr>
         else if (i = i0 \<and> j = j0) \<and> s = 3 then Some \<lparr>num = b, side = 1\<rparr>
         else grid_slot w h D1 D2 i j s)"
      unfolding s da db old ..
    also have "\<dots> = grid_slot w h (\<lambda>i j. D1 i j \<or> (i = i0 \<and> j = j0)) D2 i j s"
      using r ij nd by (auto simp: grid_slot_def a_def b_def)
    finally show "slot g' (i + j * w) s =
        grid_slot w h (\<lambda>i j. D1 i j \<or> (i = i0 \<and> j = j0)) D2 i j s" .
  qed
  moreover have "link_stmt g (i0 + j0 * w) 3 (i0 + j0 * w - 1) 1 = Inr g'"
    using l unfolding ba[symmetric] a_def .
  ultimately show ?thesis by blast
qed

lemma step_v:
  assumes wd: "wired w h D1 D2 g"
    and r: "0 \<le> i0" "i0 < w" "0 < j0" "j0 < h"
    and nd: "\<not> D2 i0 j0"
  shows "\<exists>g'. link_stmt g (i0 + j0 * w) 2 (i0 + j0 * w - w) 0 = Inr g' \<and>
           wired w h D1 (\<lambda>i j. D2 i j \<or> (i = i0 \<and> j = j0)) g'"
proof -
  define a where "a = i0 + j0 * w"
  define b where "b = i0 + (j0 - 1) * w"
  have ba: "a - w = b" by (simp add: a_def b_def algebra_simps)
  have va: "valid_index g a" unfolding a_def using wired_valid[OF wd] r by simp
  have vb: "valid_index g b" unfolding b_def using wired_valid[OF wd, of i0 "j0 - 1"] r by simp
  have ea: "slot g a 2 = None"
    unfolding a_def using wired_slot[OF wd, of i0 j0 2] r nd by (simp add: grid_slot_def)
  have eb: "slot g b 0 = None"
    unfolding b_def using wired_slot[OF wd, of i0 "j0 - 1" 0] r nd by (simp add: grid_slot_def)
  have dist: "distinct (nodes g)" using wd by (simp add: wired_def)
  obtain g' where l: "link_stmt g a 2 b 0 = Inr g'" and n: "nodes g' = nodes g"
    and s: "\<And>x s. slot g' x s =
        (if x = b \<and> s = 0 then Some \<lparr>num = a, side = 2\<rparr>
         else if x = a \<and> s = 2 then Some \<lparr>num = b, side = 0\<rparr>
         else slot g x s)"
    using link_stmt_slot[OF dist va vb ea eb] by blast
  have "wired w h D1 (\<lambda>i j. D2 i j \<or> (i = i0 \<and> j = j0)) g'"
    unfolding wired_def
  proof (intro conjI allI impI)
    show "int (length (nodes g')) = w * h" "distinct (nodes g')"
      using wd n by (simp_all add: wired_def)
  next
    fix i j s :: int
    assume ij: "0 \<le> i \<and> i < w \<and> 0 \<le> j \<and> j < h"
    have da: "(i + j * w = a) = (i = i0 \<and> j = j0)"
      unfolding a_def using ij r by (intro idx_eq_iff) auto
    have db: "(i + j * w = b) = (i = i0 \<and> j = j0 - 1)"
      unfolding b_def using ij r by (intro idx_eq_iff) auto
    have old: "slot g (i + j * w) s = grid_slot w h D1 D2 i j s"
      using wired_slot[OF wd] ij by simp
    have "slot g' (i + j * w) s =
        (if (i = i0 \<and> j = j0 - 1) \<and> s = 0 then Some \<lparr>num = a, side = 2\<rparr>
         else if (i = i0 \<and> j = j0) \<and> s = 2 then Some \<lparr>num = b, side = 0\<rparr>
         else grid_slot w h D1 D2 i j s)"
      unfolding s da db old ..
    also have "\<dots> = grid_slot w h D1 (\<lambda>i j. D2 i j \<or> (i = i0 \<and> j = j0)) i j s"
      using r ij nd by (auto simp: grid_slot_def a_def b_def algebra_simps)
    finally show "slot g' (i + j * w) s =
        grid_slot w h D1 (\<lambda>i j. D2 i j \<or> (i = i0 \<and> j = j0)) i j s" .
  qed
  moreover have "link_stmt g (i0 + j0 * w) 2 (i0 + j0 * w - w) 0 = Inr g'"
    using l unfolding ba[symmetric] a_def .
  ultimately show ?thesis by blast
qed

subsection \<open>The loops\<close>

lemma grid_body_wired:
  assumes wd: "wired w h (before i0 j0) (before i0 j0) g"
    and r: "0 \<le> i0" "i0 < w" "0 \<le> j0" "j0 < h"
  shows "\<exists>g'. grid_body w i0 j0 g = Inr g' \<and>
           wired w h (before i0 (j0 + 1)) (before i0 (j0 + 1)) g'"
proof -
  have nb: "\<not> before i0 j0 i0 j0" by (simp add: before_def)
  have "\<exists>g1. (if i0 > 0 then link_stmt g (i0 + j0 * w) 3 (i0 + j0 * w - 1) 1 else Inr g) = Inr g1
          \<and> wired w h (before i0 (j0 + 1)) (before i0 j0) g1"
  proof (cases "i0 > 0")
    case True
    obtain g1 where "link_stmt g (i0 + j0 * w) 3 (i0 + j0 * w - 1) 1 = Inr g1"
      and "wired w h (\<lambda>i j. before i0 j0 i j \<or> (i = i0 \<and> j = j0)) (before i0 j0) g1"
      using step_h[OF wd True r(2-4) nb] by blast
    moreover from this(2) have "wired w h (before i0 (j0 + 1)) (before i0 j0) g1"
      by (rule wired_cong) (auto simp: before_def)
    ultimately show ?thesis using True by simp
  next
    case False
    have "wired w h (before i0 (j0 + 1)) (before i0 j0) g"
      using wd by (rule wired_cong) (use False r in \<open>auto simp: before_def\<close>)
    then show ?thesis using False by simp
  qed
  then obtain g1 where
    g1: "(if i0 > 0 then link_stmt g (i0 + j0 * w) 3 (i0 + j0 * w - 1) 1 else Inr g) = Inr g1"
    and w1: "wired w h (before i0 (j0 + 1)) (before i0 j0) g1"
    by blast
  have "\<exists>g2. (if j0 > 0 then link_stmt g1 (i0 + j0 * w) 2 (i0 + j0 * w - w) 0 else Inr g1) = Inr g2
          \<and> wired w h (before i0 (j0 + 1)) (before i0 (j0 + 1)) g2"
  proof (cases "j0 > 0")
    case True
    obtain g2 where "link_stmt g1 (i0 + j0 * w) 2 (i0 + j0 * w - w) 0 = Inr g2"
      and "wired w h (before i0 (j0 + 1)) (\<lambda>i j. before i0 j0 i j \<or> (i = i0 \<and> j = j0)) g2"
      using step_v[OF w1 r(1,2) True r(4) nb] by blast
    moreover from this(2) have "wired w h (before i0 (j0 + 1)) (before i0 (j0 + 1)) g2"
      by (rule wired_cong) (auto simp: before_def)
    ultimately show ?thesis using True by simp
  next
    case False
    have "wired w h (before i0 (j0 + 1)) (before i0 (j0 + 1)) g1"
      using w1 by (rule wired_cong) (use False r in \<open>auto simp: before_def\<close>)
    then show ?thesis using False by simp
  qed
  then obtain g2 where
    g2: "(if j0 > 0 then link_stmt g1 (i0 + j0 * w) 2 (i0 + j0 * w - w) 0 else Inr g1) = Inr g2"
    and w2: "wired w h (before i0 (j0 + 1)) (before i0 (j0 + 1)) g2"
    by blast
  have "grid_body w i0 j0 g = Inr g2"
    unfolding grid_body_def Let_def g1 using g2 by simp
  then show ?thesis using w2 by blast
qed

lemma grid_inner_wired:
  assumes "wired w h (before i0 j0) (before i0 j0) g" "0 \<le> i0" "i0 < w" "0 \<le> j0" "j0 \<le> h"
  shows "\<exists>g'. grid_inner w h i0 j0 g = Inr g' \<and> wired w h (before i0 h) (before i0 h) g'"
  using assms
proof (induction w h i0 j0 g rule: grid_inner.induct)
  case (1 w h i0 j0 g)
  show ?case
  proof (cases "j0 < h")
    case True
    obtain g1 where b: "grid_body w i0 j0 g = Inr g1"
      and w1: "wired w h (before i0 (j0 + 1)) (before i0 (j0 + 1)) g1"
      using grid_body_wired[OF "1.prems"(1-4) True] by blast
    obtain g' where "grid_inner w h i0 (j0 + 1) g1 = Inr g'"
      and "wired w h (before i0 h) (before i0 h) g'"
      using "1.IH"[OF True b w1] "1.prems" True by auto
    then show ?thesis using True b by (subst grid_inner.simps) simp
  next
    case False
    then have "j0 = h" using "1.prems" by simp
    then show ?thesis using "1.prems" by (subst grid_inner.simps) simp
  qed
qed

lemma grid_outer_wired:
  assumes "wired w h (before i0 0) (before i0 0) g" "0 \<le> i0" "i0 \<le> w" "0 \<le> h"
  shows "\<exists>g'. grid_outer w h i0 g = Inr g' \<and> wired w h (before w 0) (before w 0) g'"
  using assms
proof (induction w h i0 g rule: grid_outer.induct)
  case (1 w h i0 g)
  show ?case
  proof (cases "i0 < w")
    case True
    obtain g1 where b: "grid_inner w h i0 0 g = Inr g1"
      and w1: "wired w h (before i0 h) (before i0 h) g1"
      using grid_inner_wired[OF "1.prems"(1,2) True _ "1.prems"(4)] by auto
    have w2: "wired w h (before (i0 + 1) 0) (before (i0 + 1) 0) g1"
      using w1 by (rule wired_cong) (auto simp: before_def)
    obtain g' where "grid_outer w h (i0 + 1) g1 = Inr g'"
      and "wired w h (before w 0) (before w 0) g'"
      using "1.IH"[OF True b w2] "1.prems" True by auto
    then show ?thesis using True b by (subst grid_outer.simps) simp
  next
    case False
    then have "i0 = w" using "1.prems" by simp
    then show ?thesis using "1.prems" by (subst grid_outer.simps) simp
  qed
qed

lemma populate_wired:
  assumes "0 \<le> w * h"
  shows "wired w h (before 0 0) (before 0 0) (populate (QuadGraph hp f None) (w * h))"
proof -
  define g where "g = (populate (QuadGraph hp f None) (w * h) :: 'a graph)"
  have n: "nodes g = [f ..< f + nat (w * h)]"
    by (simp add: g_def populate_def populate_loop_nodes QuadGraph_def)
  have hp: "heap g r = (if f \<le> r \<and> r < f + nat (w * h) then (\<lambda>k. None) else hp r)" for r
    by (simp add: g_def populate_def populate_loop_heap QuadGraph_def)
  have s: "slot g x s = None" for x s
    by (auto simp: slot_def nodes_at_def n hp split: option.splits)
  have "wired w h (before 0 0) (before 0 0) g"
    unfolding wired_def
  proof (intro conjI allI impI)
    show "int (length (nodes g)) = w * h" using assms by (simp add: n)
    show "distinct (nodes g)" by (simp add: n)
  next
    fix i j s :: int
    assume "0 \<le> i \<and> i < w \<and> 0 \<le> j \<and> j < h"
    then show "slot g (i + j * w) s = grid_slot w h (before 0 0) (before 0 0) i j s"
      by (simp add: s grid_slot_def before_def)
  qed
  then show ?thesis by (simp add: g_def)
qed

text \<open>
  Claim C9. For \<open>width, height \<ge> 1\<close>, \<^verbatim>\<open>grid(width, height)\<close> returns a graph of
  \<open>width * height\<close> nodes, each array at one index. The node of column \<open>i\<close> and row \<open>j\<close> is
  at index \<open>i + j * width\<close>. Its side 3 holds side 1 of the node at \<open>index - 1\<close> when
  \<open>i > 0\<close>, and that node's side 1 holds its side 3; its side 2 holds side 0 of the node at
  \<open>index - width\<close> when \<open>j > 0\<close>, and that node's side 0 holds its side 2. The slots that
  face outside the grid are empty.
\<close>

theorem grid_wiring:
  assumes "1 \<le> width" "1 \<le> height"
  shows "\<exists>g. (grid hp f width height :: error + 'v graph) = Inr g \<and>
    length_graph g = width * height \<and> distinct (nodes g) \<and>
    (\<forall>i j. 0 \<le> i \<and> i < width \<and> 0 \<le> j \<and> j < height \<longrightarrow>
       valid_index g (i + j * width) \<and>
       slot g (i + j * width) 3 =
         (if 0 < i then Some \<lparr>num = i + j * width - 1, side = 1\<rparr> else None) \<and>
       slot g (i + j * width) 1 =
         (if i + 1 < width then Some \<lparr>num = i + j * width + 1, side = 3\<rparr> else None) \<and>
       slot g (i + j * width) 2 =
         (if 0 < j then Some \<lparr>num = i + j * width - width, side = 0\<rparr> else None) \<and>
       slot g (i + j * width) 0 =
         (if j + 1 < height then Some \<lparr>num = i + j * width + width, side = 2\<rparr> else None))"
proof -
  have p: "0 \<le> width * height" using assms by simp
  obtain g :: "'v graph" where g: "grid hp f width height = Inr g"
    and wd: "wired width height (before width 0) (before width 0) g"
    using grid_outer_wired[OF populate_wired[OF p, of hp f]] assms
    unfolding grid_def by auto
  have len: "length_graph g = width * height" "distinct (nodes g)"
    using wd by (simp_all add: wired_def length_graph_def)
  have "valid_index g (i + j * width) \<and>
       slot g (i + j * width) 3 =
         (if 0 < i then Some \<lparr>num = i + j * width - 1, side = 1\<rparr> else None) \<and>
       slot g (i + j * width) 1 =
         (if i + 1 < width then Some \<lparr>num = i + j * width + 1, side = 3\<rparr> else None) \<and>
       slot g (i + j * width) 2 =
         (if 0 < j then Some \<lparr>num = i + j * width - width, side = 0\<rparr> else None) \<and>
       slot g (i + j * width) 0 =
         (if j + 1 < height then Some \<lparr>num = i + j * width + width, side = 2\<rparr> else None)"
    if "0 \<le> i \<and> i < width \<and> 0 \<le> j \<and> j < height" for i j
    using that wired_valid[OF wd, of i j] wired_slot[OF wd, of i j]
    by (simp add: grid_slot_def before_def)
  then show ?thesis using g len by blast
qed

theorem grid_wiring_witness:
  "(1::int) \<le> 2 \<and>
   (\<exists>g. (grid (\<lambda>r k. None) 0 2 2 :: error + unit graph) = Inr g \<and> length_graph g = 4 \<and>
      slot g 3 3 = Some \<lparr>num = 2, side = 1\<rparr> \<and> slot g 3 2 = Some \<lparr>num = 1, side = 0\<rparr> \<and>
      slot g 3 1 = None \<and> slot g 3 0 = None \<and>
      slot g 0 1 = Some \<lparr>num = 1, side = 3\<rparr> \<and> slot g 0 0 = Some \<lparr>num = 2, side = 2\<rparr> \<and>
      slot g 0 3 = None \<and> slot g 0 2 = None)"
proof -
  have h: "(1::int) \<le> 2" by simp
  obtain g :: "unit graph" where g: "grid (\<lambda>r k. None) 0 2 2 = Inr g"
    and l: "length_graph g = 2 * 2"
    and a: "\<forall>i j. 0 \<le> i \<and> i < 2 \<and> 0 \<le> j \<and> j < 2 \<longrightarrow>
       valid_index g (i + j * 2) \<and>
       slot g (i + j * 2) 3 =
         (if 0 < i then Some \<lparr>num = i + j * 2 - 1, side = 1\<rparr> else None) \<and>
       slot g (i + j * 2) 1 =
         (if i + 1 < 2 then Some \<lparr>num = i + j * 2 + 1, side = 3\<rparr> else None) \<and>
       slot g (i + j * 2) 2 =
         (if 0 < j then Some \<lparr>num = i + j * 2 - 2, side = 0\<rparr> else None) \<and>
       slot g (i + j * 2) 0 =
         (if j + 1 < 2 then Some \<lparr>num = i + j * 2 + 2, side = 2\<rparr> else None)"
    using grid_wiring[OF h h, of "\<lambda>r k. None" 0] by blast
  have "slot g 3 3 = Some \<lparr>num = 2, side = 1\<rparr> \<and> slot g 3 2 = Some \<lparr>num = 1, side = 0\<rparr> \<and>
      slot g 3 1 = None \<and> slot g 3 0 = None"
    using a[rule_format, of 1 1] by simp
  moreover have "slot g 0 1 = Some \<lparr>num = 1, side = 3\<rparr> \<and> slot g 0 0 = Some \<lparr>num = 2, side = 2\<rparr> \<and>
      slot g 0 3 = None \<and> slot g 0 2 = None"
    using a[rule_format, of 0 0] by simp
  ultimately show ?thesis using g l by auto
qed

end
